theory Spec2Isabelle
  imports Complex_Main "HOL-Library.AList" "HOL-Library.Product_Lexorder"
begin

section \<open>Data model\<close>

text \<open>
  Vertices and colors are Python integers. A Python \<open>dict\<close> is an association list in
  insertion order (\<open>map_of\<close> reads it, \<open>AList.update\<close> writes it: an existing key keeps
  its position, a new key is appended). A Python \<open>set\<close> of vertices is the list of its
  elements in the order the set iterates them.
\<close>

type_synonym Vertex = int
type_synonym Color = int
type_synonym Coloring = "(Vertex \<times> Color) list"

datatype error = KeyError Vertex | ValueError string

record Graph =
  n :: int
  adj :: "(Vertex \<times> Vertex list) list"

text \<open>\<open>Graph.neighbors\<close>: \<open>self.adj.get(v, set())\<close>.\<close>

definition neighbors :: "Graph \<Rightarrow> Vertex \<Rightarrow> Vertex list" where
  "neighbors g v = (case map_of (adj g) v of None \<Rightarrow> [] | Some ns \<Rightarrow> ns)"

text \<open>\<open>range(a, b)\<close> and \<open>range(b)\<close> over Python integers (empty when \<open>b \<le> a\<close>).\<close>

definition range2 :: "int \<Rightarrow> int \<Rightarrow> int list" where
  "range2 a b = [a..b - 1]"

definition range1 :: "int \<Rightarrow> int list" where
  "range1 b = range2 0 b"

text \<open>\<open>len(graph.neighbors(v))\<close>: the number of elements of the set.\<close>

definition degree :: "Graph \<Rightarrow> Vertex \<Rightarrow> nat" where
  "degree g v = length (remdups (neighbors g v))"

text \<open>\<open>coloring[v]\<close> raises \<open>KeyError\<close> on a missing key.\<close>

definition getitem :: "Coloring \<Rightarrow> Vertex \<Rightarrow> error + Color" where
  "getitem c v = (case map_of c v of None \<Rightarrow> Inl (KeyError v) | Some x \<Rightarrow> Inr x)"

text \<open>\<open>sum(coloring.values())\<close>.\<close>

definition objective :: "Coloring \<Rightarrow> int" where
  "objective c = sum_list (map snd c)"

section \<open>Greedy constructor (\<open>greedy_msc.py\<close>)\<close>

text \<open>
  \<open>vertices = list(range(graph.n)); vertices.sort(key=lambda v: (-len(graph.neighbors(v)), v))\<close>.
  Python's sort is stable and compares the key tuples lexicographically.
\<close>

definition greedy_order :: "Graph \<Rightarrow> Vertex list" where
  "greedy_order g = sort_key (\<lambda>v. (- int (degree g v), v)) (range1 (n g))"

text \<open>\<open>{coloring[u] for u in graph.neighbors(v) if u in coloring}\<close>, as the list of its members.\<close>

definition forbidden_colors :: "Graph \<Rightarrow> Coloring \<Rightarrow> Vertex \<Rightarrow> Color list" where
  "forbidden_colors g coloring v =
     map (\<lambda>u. the (map_of coloring u)) (filter (\<lambda>u. map_of coloring u \<noteq> None) (neighbors g v))"

text \<open>\<open>while color in forbidden_colors: color += 1\<close>.\<close>

function first_free :: "Color list \<Rightarrow> Color \<Rightarrow> Color" where
  "first_free forbidden color =
     (if color \<in> set forbidden then first_free forbidden (color + 1) else color)"
  by pat_completeness auto
termination
proof (relation "measure (\<lambda>(forbidden, color). length (filter (\<lambda>x. color \<le> x) forbidden))")
  show "wf (measure (\<lambda>(forbidden, color). length (filter (\<lambda>x. color \<le> x) forbidden)))"
    by simp
next
  fix forbidden :: "Color list" and color :: Color
  assume mem: "color \<in> set forbidden"
  have "length (filter (\<lambda>x. color + 1 \<le> x) forbidden) < length (filter (\<lambda>x. color \<le> x) forbidden)"
    using mem
  proof (induction forbidden)
    case Nil
    then show ?case by simp
  next
    case (Cons a as)
    have le: "length (filter (\<lambda>x. color + 1 \<le> x) as) \<le> length (filter (\<lambda>x. color \<le> x) as)"
      by (induction as) auto
    show ?case
    proof (cases "color \<in> set as")
      case True
      with Cons.IH show ?thesis by auto
    next
      case False
      with Cons.prems have "a = color" by simp
      with le show ?thesis by simp
    qed
  qed
  then show "((forbidden, color + 1), (forbidden, color))
      \<in> measure (\<lambda>(forbidden, color). length (filter (\<lambda>x. color \<le> x) forbidden))"
    by simp
qed

text \<open>The body of \<open>for v in vertices\<close>.\<close>

definition color_vertex :: "Graph \<Rightarrow> Coloring \<Rightarrow> Vertex \<Rightarrow> Coloring" where
  "color_vertex g coloring v =
     AList.update v (first_free (forbidden_colors g coloring v) 1) coloring"

fun greedy_loop :: "Graph \<Rightarrow> Vertex list \<Rightarrow> Coloring \<Rightarrow> Coloring" where
  "greedy_loop g [] coloring = coloring"
| "greedy_loop g (v # vs) coloring = greedy_loop g vs (color_vertex g coloring v)"

definition greedy_msc :: "Graph \<Rightarrow> Coloring \<times> int" where
  "greedy_msc g =
     (let coloring = greedy_loop g (greedy_order g) [];
          total_sum = sum_list (map snd coloring)
      in (coloring, total_sum))"

section \<open>Tabu search engine (\<open>tabu_search_msc.py\<close>)\<close>

record TabuSearchConfig =
  max_iterations :: int
  tabu_tenure :: int
  max_no_improve :: int

definition default_config :: TabuSearchConfig where
  "default_config = \<lparr>max_iterations = 500, tabu_tenure = 7, max_no_improve = 100\<rparr>"

text \<open>The local variables of \<open>tabu_search_msc\<close> that live across iterations.\<close>

record search_state =
  current_coloring :: Coloring
  current_value :: int
  best_coloring :: Coloring
  best_value :: int
  tabu :: "((Vertex \<times> Color) \<times> int) list"
  max_color :: int
  iterations_without_improve :: int
  iteration :: int

type_synonym move = "Vertex \<times> Color"

text \<open>
  \<open>any(current_coloring[u] == new_color for u in graph.neighbors(v))\<close>: stops at the
  first neighbour holding the color; \<open>KeyError\<close> at an uncolored neighbour read before that.
\<close>

fun any_conflict :: "Coloring \<Rightarrow> Color \<Rightarrow> Vertex list \<Rightarrow> error + bool" where
  "any_conflict c new_color [] = Inr False"
| "any_conflict c new_color (u # us) =
     (case getitem c u of
        Inl e \<Rightarrow> Inl e
      | Inr cu \<Rightarrow> if cu = new_color then Inr True else any_conflict c new_color us)"

text \<open>\<open>tabu.get(move, -1)\<close>.\<close>

definition tabu_until :: "search_state \<Rightarrow> move \<Rightarrow> int" where
  "tabu_until s m = (case map_of (tabu s) m of None \<Rightarrow> - 1 | Some t \<Rightarrow> t)"

text \<open>
  The filters of the inner loop body for one \<open>(v, new_color)\<close>, up to the aspiration test:
  \<open>Inr None\<close> is \<open>continue\<close>, \<open>Inr (Some new_value)\<close> a candidate that reaches the
  comparison with \<open>best_move_value\<close>. The state passed in holds the iteration counter
  already incremented.
\<close>

definition candidate :: "Graph \<Rightarrow> search_state \<Rightarrow> Vertex \<Rightarrow> Color \<Rightarrow> Color \<Rightarrow> error + int option" where
  "candidate g s v current_color new_color =
     (if new_color = current_color then Inr None
      else case any_conflict (current_coloring s) new_color (neighbors g v) of
        Inl e \<Rightarrow> Inl e
      | Inr True \<Rightarrow> Inr None
      | Inr False \<Rightarrow>
          (let new_value = current_value s - current_color + new_color;
               is_tabu = (iteration s \<le> tabu_until s (v, new_color))
           in if is_tabu \<and> new_value \<ge> best_value s then Inr None
              else Inr (Some new_value)))"

text \<open>\<open>for new_color in range(1, max_color + 2)\<close>, carrying \<open>(best_move, best_move_value)\<close>.\<close>

fun scan_colors ::
  "Graph \<Rightarrow> search_state \<Rightarrow> Vertex \<Rightarrow> Color \<Rightarrow> Color list \<Rightarrow> (move \<times> int) option
     \<Rightarrow> error + (move \<times> int) option" where
  "scan_colors g s v current_color [] best_move = Inr best_move"
| "scan_colors g s v current_color (new_color # cs) best_move =
     (case candidate g s v current_color new_color of
        Inl e \<Rightarrow> Inl e
      | Inr None \<Rightarrow> scan_colors g s v current_color cs best_move
      | Inr (Some new_value) \<Rightarrow>
          (if best_move = None \<or> new_value < snd (the best_move)
           then scan_colors g s v current_color cs (Some ((v, new_color), new_value))
           else scan_colors g s v current_color cs best_move))"

text \<open>\<open>for v in range(graph.n)\<close>.\<close>

fun scan_vertices ::
  "Graph \<Rightarrow> search_state \<Rightarrow> Vertex list \<Rightarrow> (move \<times> int) option \<Rightarrow> error + (move \<times> int) option" where
  "scan_vertices g s [] best_move = Inr best_move"
| "scan_vertices g s (v # vs) best_move =
     (case getitem (current_coloring s) v of
        Inl e \<Rightarrow> Inl e
      | Inr current_color \<Rightarrow>
          (case scan_colors g s v current_color (range2 1 (max_color s + 2)) best_move of
             Inl e \<Rightarrow> Inl e
           | Inr best_move' \<Rightarrow> scan_vertices g s vs best_move'))"

text \<open>The part of the loop body after a move was found (\<open># Apply move.\<close> to the end).\<close>

definition apply_move :: "TabuSearchConfig \<Rightarrow> search_state \<Rightarrow> move \<Rightarrow> int \<Rightarrow> error + search_state" where
  "apply_move config s best_move best_move_value =
     (case best_move of (v, new_color) \<Rightarrow>
        (case getitem (current_coloring s) v of
           Inl e \<Rightarrow> Inl e
         | Inr old_color \<Rightarrow>
            (let s1 = s\<lparr>current_coloring := AList.update v new_color (current_coloring s),
                        current_value := best_move_value,
                        max_color := max (max_color s) new_color,
                        tabu := AList.update (v, old_color) (iteration s + tabu_tenure config) (tabu s)\<rparr>
             in if current_value s1 < best_value s1
                then Inr (s1\<lparr>best_value := current_value s1,
                             best_coloring := current_coloring s1,
                             iterations_without_improve := 0\<rparr>)
                else Inr (s1\<lparr>iterations_without_improve := iterations_without_improve s1 + 1\<rparr>))))"

text \<open>
  One pass of the \<open>while\<close> body: \<open>Inr None\<close> is the \<open>break\<close> (no admissible move),
  \<open>Inr (Some s')\<close> the state at the end of the body.
\<close>

definition tabu_iteration :: "TabuSearchConfig \<Rightarrow> Graph \<Rightarrow> search_state \<Rightarrow> error + search_state option" where
  "tabu_iteration config g s =
     (let s1 = s\<lparr>iteration := iteration s + 1\<rparr>
      in case scan_vertices g s1 (range1 (n g)) None of
           Inl e \<Rightarrow> Inl e
         | Inr None \<Rightarrow> Inr None
         | Inr (Some (best_move, best_move_value)) \<Rightarrow>
             (case apply_move config s1 best_move best_move_value of
                Inl e \<Rightarrow> Inl e
              | Inr s2 \<Rightarrow> Inr (Some s2)))"

definition loop_guard :: "TabuSearchConfig \<Rightarrow> search_state \<Rightarrow> bool" where
  "loop_guard config s \<longleftrightarrow>
     iteration s < max_iterations config \<and> iterations_without_improve s < max_no_improve config"

lemma apply_move_iteration:
  "apply_move config s m val = Inr s' \<Longrightarrow> iteration s' = iteration s"
  by (auto simp: apply_move_def Let_def split: prod.splits sum.splits if_splits)

lemma tabu_iteration_iteration:
  "tabu_iteration config g s = Inr (Some s') \<Longrightarrow> iteration s' = iteration s + 1"
  by (auto simp: tabu_iteration_def Let_def split: sum.splits option.splits prod.splits
           dest: apply_move_iteration)

text \<open>The \<open>while\<close> loop; it returns the state it stops in.\<close>

function tabu_loop :: "TabuSearchConfig \<Rightarrow> Graph \<Rightarrow> search_state \<Rightarrow> error + search_state" where
  "tabu_loop config g s =
     (if loop_guard config s then
        (case tabu_iteration config g s of
           Inl e \<Rightarrow> Inl e
         | Inr None \<Rightarrow> Inr s
         | Inr (Some s') \<Rightarrow> tabu_loop config g s')
      else Inr s)"
  by pat_completeness auto
termination
proof (relation "measure (\<lambda>(config, g, s). nat (max_iterations config - iteration s))")
  show "wf (measure (\<lambda>(config, g, s). nat (max_iterations config - iteration s)))"
    by simp
next
  fix config :: TabuSearchConfig and g :: Graph and s :: search_state and r s'
  assume "loop_guard config s" and "tabu_iteration config g s = Inr r" and "r = Some s'"
  then have "iteration s < max_iterations config" and "iteration s' = iteration s + 1"
    by (auto simp: loop_guard_def dest: tabu_iteration_iteration)
  then show "((config, g, s'), (config, g, s))
      \<in> measure (\<lambda>(config, g, s). nat (max_iterations config - iteration s))"
    by simp
qed

text \<open>The state before the loop.\<close>

definition initial_state :: "Coloring \<Rightarrow> search_state" where
  "initial_state initial_coloring =
     \<lparr>current_coloring = initial_coloring,
      current_value = objective initial_coloring,
      best_coloring = initial_coloring,
      best_value = objective initial_coloring,
      tabu = [],
      max_color = (if initial_coloring \<noteq> [] then Max (set (map snd initial_coloring)) else 0),
      iterations_without_improve = 0,
      iteration = 0\<rparr>"

definition tabu_search_msc ::
  "Graph \<Rightarrow> Coloring \<Rightarrow> TabuSearchConfig option \<Rightarrow> error + (Coloring \<times> int)" where
  "tabu_search_msc g initial_coloring config =
     (let config = (case config of None \<Rightarrow> default_config | Some c \<Rightarrow> c)
      in case tabu_loop config g (initial_state initial_coloring) of
           Inl e \<Rightarrow> Inl e
         | Inr s \<Rightarrow> Inr (best_coloring s, best_value s))"

text \<open>
  The states of a run: \<open>run config g s s'\<close> holds when the loop, started at its head in
  state \<open>s\<close>, is at its head again in state \<open>s'\<close> after zero or more full passes.
\<close>

inductive run :: "TabuSearchConfig \<Rightarrow> Graph \<Rightarrow> search_state \<Rightarrow> search_state \<Rightarrow> bool"
  for config :: TabuSearchConfig and g :: Graph and s :: search_state where
  run_start: "run config g s s"
| run_pass: "run config g s s1 \<Longrightarrow> loop_guard config s1 \<Longrightarrow>
             tabu_iteration config g s1 = Inr (Some s2) \<Longrightarrow> run config g s s2"

section \<open>Graph generation (\<open>graph_generation.py\<close>)\<close>

text \<open>
  The probability \<open>p\<close> is a Python float: a finite number, an infinity or NaN. The
  generator only compares it, and comparison of floats is exact.
\<close>

datatype pyfloat = Finite real | PosInf | NegInf | NaN

fun float_le :: "pyfloat \<Rightarrow> pyfloat \<Rightarrow> bool" where
  "float_le NaN _ = False"
| "float_le _ NaN = False"
| "float_le NegInf _ = True"
| "float_le _ PosInf = True"
| "float_le (Finite a) (Finite b) = (a \<le> b)"
| "float_le _ _ = False"

fun float_lt :: "pyfloat \<Rightarrow> pyfloat \<Rightarrow> bool" where
  "float_lt NaN _ = False"
| "float_lt _ NaN = False"
| "float_lt (Finite a) (Finite b) = (a < b)"
| "float_lt PosInf _ = False"
| "float_lt _ NegInf = False"
| "float_lt _ _ = True"

text \<open>
  A \<open>random.Random\<close> object is the stream of the values its successive \<open>random()\<close>
  calls return. The library is not part of the repository: \<open>seeded\<close> is the stream
  \<open>random.Random(s)\<close> yields for an integer seed \<open>s\<close>, \<open>unseeded\<close> the stream that
  \<open>random.Random(None)\<close> draws from the operating system at this call.
\<close>

type_synonym rng = "nat \<Rightarrow> real"

definition Random :: "(int \<Rightarrow> rng) \<Rightarrow> rng \<Rightarrow> int option \<Rightarrow> rng" where
  "Random seeded unseeded seed = (case seed of None \<Rightarrow> unseeded | Some s \<Rightarrow> seeded s)"

type_synonym adjacency = "(Vertex \<times> Vertex list) list"

text \<open>\<open>adj[u].add(v)\<close>.\<close>

definition adj_add :: "adjacency \<Rightarrow> Vertex \<Rightarrow> Vertex \<Rightarrow> error + adjacency" where
  "adj_add a u v =
     (case map_of a u of
        None \<Rightarrow> Inl (KeyError u)
      | Some ns \<Rightarrow> Inr (AList.update u (if v \<in> set ns then ns else ns @ [v]) a))"

text \<open>
  \<open>for v in range(u + 1, n)\<close>, carrying the adjacency and the number of draws made so far.
\<close>

fun edges_from :: "rng \<Rightarrow> pyfloat \<Rightarrow> Vertex \<Rightarrow> Vertex list \<Rightarrow> adjacency \<times> nat \<Rightarrow> error + adjacency \<times> nat" where
  "edges_from r p u [] (a, k) = Inr (a, k)"
| "edges_from r p u (v # vs) (a, k) =
     (if float_lt (Finite (r k)) p then
        (case adj_add a u v of
           Inl e \<Rightarrow> Inl e
         | Inr a1 \<Rightarrow>
            (case adj_add a1 v u of
               Inl e \<Rightarrow> Inl e
             | Inr a2 \<Rightarrow> edges_from r p u vs (a2, Suc k)))
      else edges_from r p u vs (a, Suc k))"

text \<open>\<open>for u in range(n)\<close>.\<close>

fun all_edges :: "rng \<Rightarrow> pyfloat \<Rightarrow> int \<Rightarrow> Vertex list \<Rightarrow> adjacency \<times> nat \<Rightarrow> error + adjacency \<times> nat" where
  "all_edges r p num [] (a, k) = Inr (a, k)"
| "all_edges r p num (u # us) (a, k) =
     (case edges_from r p u (range2 (u + 1) num) (a, k) of
        Inl e \<Rightarrow> Inl e
      | Inr (a', k') \<Rightarrow> all_edges r p num us (a', k'))"

definition generate_erdos_renyi_graph ::
  "(int \<Rightarrow> rng) \<Rightarrow> rng \<Rightarrow> int \<Rightarrow> pyfloat \<Rightarrow> int option \<Rightarrow> error + Graph" where
  "generate_erdos_renyi_graph seeded unseeded num p seed =
     (if \<not> (float_le (Finite 0) p \<and> float_le p (Finite 1))
      then Inl (ValueError ''p must be in [0, 1]'')
      else
        (let r = Random seeded unseeded seed;
             a = map (\<lambda>v. (v, [])) (range1 num)
         in case all_edges r p num (range1 num) (a, 0) of
              Inl e \<Rightarrow> Inl e
            | Inr (a', k) \<Rightarrow> Inr \<lparr>n = num, adj = a'\<rparr>))"

text \<open>A list comprehension over calls that may raise: the first error ends it.\<close>

fun collect :: "(error + 'a) list \<Rightarrow> error + 'a list" where
  "collect [] = Inr []"
| "collect (x # xs) =
     (case x of
        Inl e \<Rightarrow> Inl e
      | Inr y \<Rightarrow> (case collect xs of Inl e \<Rightarrow> Inl e | Inr ys \<Rightarrow> Inr (y # ys)))"

text \<open>
  \<open>generate_random_graphs\<close>; \<open>unseeded i\<close> is the stream the operating system gives the
  \<open>i\<close>-th call of the comprehension when its seed is \<open>None\<close>.
\<close>

definition generate_random_graphs ::
  "(int \<Rightarrow> rng) \<Rightarrow> (nat \<Rightarrow> rng) \<Rightarrow> int \<Rightarrow> int \<Rightarrow> pyfloat \<Rightarrow> int option \<Rightarrow> error + Graph list" where
  "generate_random_graphs seeded unseeded count num p base_seed =
     (let seeds = (case base_seed of
                     None \<Rightarrow> map (\<lambda>i. None) (range1 count)
                   | Some b \<Rightarrow> map (\<lambda>i. Some (b + i)) (range1 count))
      in collect (map (\<lambda>(i, s). generate_erdos_renyi_graph seeded (unseeded i) num p s)
                      (enumerate 0 seeds)))"

section \<open>Graphs and feasible colorings\<close>

text \<open>The edges of a graph: every pair \<open>(v, u)\<close> with \<open>u\<close> in the adjacency set of \<open>v\<close>.\<close>

definition edges :: "Graph \<Rightarrow> (Vertex \<times> Vertex) list" where
  "edges g = concat (map (\<lambda>v. map (\<lambda>u. (v, u)) (neighbors g v)) (map fst (adj g)))"

text \<open>
  The invariant the \<open>Graph\<close> class documents: vertices are the integers of
  \<open>range(n)\<close>, the adjacency is symmetric, and no vertex is its own neighbour.
\<close>

definition valid_graph :: "Graph \<Rightarrow> bool" where
  "valid_graph g \<longleftrightarrow>
     (\<forall>(u, v) \<in> set (edges g).
        0 \<le> u \<and> u < n g \<and> 0 \<le> v \<and> v < n g \<and> u \<noteq> v \<and> (v, u) \<in> set (edges g))"

text \<open>
  A feasible coloring: every vertex has a color, and the two ends of every edge have
  colors that differ.
\<close>

definition feasible :: "Graph \<Rightarrow> Coloring \<Rightarrow> bool" where
  "feasible g c \<longleftrightarrow>
     (\<forall>v \<in> set (range1 (n g)). map_of c v \<noteq> None) \<and>
     (\<forall>(u, v) \<in> set (edges g).
        map_of c u \<noteq> None \<and> map_of c v \<noteq> None \<and> map_of c u \<noteq> map_of c v)"

text \<open>What the search reads: the colors of the vertices and of their neighbours.\<close>

definition colored :: "Graph \<Rightarrow> Coloring \<Rightarrow> bool" where
  "colored g c \<longleftrightarrow>
     (\<forall>v \<in> set (range1 (n g)).
        map_of c v \<noteq> None \<and> (\<forall>u \<in> set (neighbors g v). map_of c u \<noteq> None))"

text \<open>The bookkeeping of the search: both objective values are the sums of their colorings,
  and the best value never exceeds a bound \<open>B\<close>.\<close>

definition value_inv :: "Graph \<Rightarrow> int \<Rightarrow> search_state \<Rightarrow> bool" where
  "value_inv g B s \<longleftrightarrow>
     colored g (current_coloring s) \<and>
     current_value s = objective (current_coloring s) \<and>
     best_value s = objective (best_coloring s) \<and>
     best_value s \<le> B"

text \<open>Feasibility of the working coloring and of the incumbent.\<close>

definition feasible_inv :: "Graph \<Rightarrow> search_state \<Rightarrow> bool" where
  "feasible_inv g s \<longleftrightarrow> feasible g (current_coloring s) \<and> feasible g (best_coloring s)"

text \<open>
  The greedy rule in the words of the specification: the colors already used by the
  neighbours of the \<open>i\<close>-th vertex of the order that come before it in the order, and
  the smallest positive integer outside a set of colors.
\<close>

definition earlier_neighbor_colors :: "Graph \<Rightarrow> Vertex list \<Rightarrow> Coloring \<Rightarrow> nat \<Rightarrow> Color set" where
  "earlier_neighbor_colors g order coloring i =
     {x. \<exists>u \<in> set (neighbors g (order ! i)) \<inter> set (take i order). map_of coloring u = Some x}"

definition smallest_free_color :: "Color set \<Rightarrow> Color \<Rightarrow> bool" where
  "smallest_free_color used x \<longleftrightarrow> 1 \<le> x \<and> x \<notin> used \<and> (\<forall>y. 1 \<le> y \<and> y < x \<longrightarrow> y \<in> used)"

text \<open>
  A search whose incumbent \<open>c0\<close> cannot be improved: every color of the working
  coloring is positive, so its sum is at least the number of its entries.
\<close>

definition floor_inv :: "Graph \<Rightarrow> Coloring \<Rightarrow> search_state \<Rightarrow> bool" where
  "floor_inv g c0 s \<longleftrightarrow>
     colored g (current_coloring s) \<and>
     current_value s = objective (current_coloring s) \<and>
     length (current_coloring s) = length c0 \<and>
     (\<forall>x \<in> set (current_coloring s). 1 \<le> snd x) \<and>
     best_coloring s = c0 \<and> best_value s = int (length c0)"

text \<open>The interval \<open>[0, 1]\<close> of the specification: a finite number between 0 and 1.\<close>

definition in_unit_interval :: "pyfloat \<Rightarrow> bool" where
  "in_unit_interval p = (case p of Finite x \<Rightarrow> 0 \<le> x \<and> x \<le> 1 | _ \<Rightarrow> False)"

text \<open>Every vertex of \<open>range(num)\<close> is a key of the adjacency.\<close>

definition has_keys :: "int \<Rightarrow> adjacency \<Rightarrow> bool" where
  "has_keys num a \<longleftrightarrow> (\<forall>x \<in> {0..<num}. map_of a x \<noteq> None)"

section \<open>Properties of the search loop\<close>

lemma edges_iff: "(v, u) \<in> set (edges g) \<longleftrightarrow> u \<in> set (neighbors g v)"
proof
  assume "(v, u) \<in> set (edges g)"
  then show "u \<in> set (neighbors g v)" by (auto simp: edges_def)
next
  assume h: "u \<in> set (neighbors g v)"
  then obtain ns where "map_of (adj g) v = Some ns"
    by (cases "map_of (adj g) v") (auto simp: neighbors_def)
  then have "v \<in> fst ` set (adj g)" using map_of_eq_None_iff[of "adj g" v] by auto
  with h show "(v, u) \<in> set (edges g)" by (auto simp: edges_def)
qed

lemma set_range1: "set (range1 k) = {0..<k}"
  by (auto simp: range1_def range2_def)

lemma set_range2: "set (range2 a b) = {a..<b}"
  by (auto simp: range2_def)

lemma objective_update:
  "map_of c v = Some old \<Longrightarrow> objective (AList.update v x c) = objective c - old + x"
  by (induction c) (auto simp: objective_def)

lemma any_conflict_False:
  "any_conflict c col ns = Inr False \<Longrightarrow> \<forall>u \<in> set ns. \<exists>x. map_of c u = Some x \<and> x \<noteq> col"
  by (induction ns) (auto simp: getitem_def split: option.splits if_splits sum.splits)

lemma any_conflict_total:
  "\<forall>u \<in> set ns. map_of c u \<noteq> None \<Longrightarrow> \<exists>b. any_conflict c col ns = Inr b"
  by (induction ns) (auto simp: getitem_def split: option.splits)

lemma candidate_Some:
  "candidate g s v cc c = Inr (Some val) \<Longrightarrow>
     c \<noteq> cc \<and> any_conflict (current_coloring s) c (neighbors g v) = Inr False \<and>
     val = current_value s - cc + c \<and>
     (iteration s \<le> tabu_until s (v, c) \<longrightarrow> val < best_value s)"
  by (auto simp: candidate_def Let_def split: if_splits sum.splits bool.splits)

lemma candidate_total:
  "\<forall>u \<in> set (neighbors g v). map_of (current_coloring s) u \<noteq> None \<Longrightarrow>
     \<exists>r. candidate g s v cc c = Inr r"
  using any_conflict_total[of "neighbors g v" "current_coloring s" c]
  by (auto simp: candidate_def Let_def split: sum.splits bool.splits)

lemma scan_colors_Some:
  "scan_colors g s v cc cs acc = Inr (Some (m, val)) \<Longrightarrow>
     acc = Some (m, val) \<or> (\<exists>c \<in> set cs. m = (v, c) \<and> candidate g s v cc c = Inr (Some val))"
  by (induction cs arbitrary: acc) (auto split: sum.splits option.splits if_splits)

lemma scan_colors_None:
  "scan_colors g s v cc cs acc = Inr None \<Longrightarrow> acc = None"
  by (induction cs arbitrary: acc) (auto split: sum.splits option.splits if_splits)

lemma scan_colors_total:
  "\<forall>u \<in> set (neighbors g v). map_of (current_coloring s) u \<noteq> None \<Longrightarrow>
     \<exists>r. scan_colors g s v cc cs acc = Inr r"
proof (induction cs arbitrary: acc)
  case Nil
  then show ?case by simp
next
  case (Cons c cs)
  from candidate_total[OF Cons.prems] obtain r where "candidate g s v cc c = Inr r" by blast
  with Cons.IH[OF Cons.prems] show ?case by (cases r) auto
qed

lemma scan_vertices_Some:
  "scan_vertices g s vs acc = Inr (Some (m, val)) \<Longrightarrow>
     acc = Some (m, val) \<or>
     (\<exists>v \<in> set vs. \<exists>cc c. map_of (current_coloring s) v = Some cc \<and> m = (v, c) \<and>
        c \<in> set (range2 1 (max_color s + 2)) \<and> candidate g s v cc c = Inr (Some val))"
proof (induction vs arbitrary: acc)
  case Nil
  then show ?case by simp
next
  case (Cons v vs)
  from Cons.prems obtain cc acc' where
    cc: "map_of (current_coloring s) v = Some cc" and
    sc: "scan_colors g s v cc (range2 1 (max_color s + 2)) acc = Inr acc'" and
    rest: "scan_vertices g s vs acc' = Inr (Some (m, val))"
    by (auto simp: getitem_def split: sum.splits option.splits)
  from Cons.IH[OF rest] show ?case
  proof
    assume "acc' = Some (m, val)"
    with sc have "scan_colors g s v cc (range2 1 (max_color s + 2)) acc = Inr (Some (m, val))"
      by simp
    from scan_colors_Some[OF this] cc show ?thesis by auto
  next
    assume "\<exists>v \<in> set vs. \<exists>cc c. map_of (current_coloring s) v = Some cc \<and> m = (v, c) \<and>
        c \<in> set (range2 1 (max_color s + 2)) \<and> candidate g s v cc c = Inr (Some val)"
    then show ?thesis by auto
  qed
qed

lemma feasible_colored: "feasible g c \<Longrightarrow> colored g c"
  unfolding feasible_def colored_def using edges_iff[of _ _ g] by fastforce

lemma scan_vertices_total:
  "\<forall>v \<in> set vs. map_of (current_coloring s) v \<noteq> None \<and>
       (\<forall>u \<in> set (neighbors g v). map_of (current_coloring s) u \<noteq> None) \<Longrightarrow>
     \<exists>r. scan_vertices g s vs acc = Inr r"
proof (induction vs arbitrary: acc)
  case Nil
  then show ?case by simp
next
  case (Cons v vs)
  from Cons.prems obtain cc where cc: "map_of (current_coloring s) v = Some cc" by auto
  from Cons.prems have "\<forall>u \<in> set (neighbors g v). map_of (current_coloring s) u \<noteq> None" by simp
  from scan_colors_total[OF this] obtain r where
    "scan_colors g s v cc (range2 1 (max_color s + 2)) acc = Inr r" by blast
  moreover from Cons.prems have "\<exists>r'. scan_vertices g s vs r = Inr r'"
    by (intro Cons.IH) simp
  ultimately show ?case using cc by (auto simp: getitem_def)
qed

declare tabu_loop.simps [simp del]

lemma tabu_until_iteration [simp]: "tabu_until (s\<lparr>iteration := i\<rparr>) m = tabu_until s m"
  by (simp add: tabu_until_def)

lemma apply_move_fields:
  assumes "apply_move config s (v, c) val = Inr s'" and "map_of (current_coloring s) v = Some cc"
  shows "current_coloring s' = AList.update v c (current_coloring s) \<and>
     current_value s' = val \<and>
     tabu s' = AList.update (v, cc) (iteration s + tabu_tenure config) (tabu s) \<and>
     iteration s' = iteration s \<and>
     max_color s' = max (max_color s) c \<and>
     (if val < best_value s
      then best_value s' = val \<and> best_coloring s' = AList.update v c (current_coloring s) \<and>
           iterations_without_improve s' = 0
      else best_value s' = best_value s \<and> best_coloring s' = best_coloring s \<and>
           iterations_without_improve s' = iterations_without_improve s + 1)"
  using assms by (auto simp: apply_move_def getitem_def Let_def split: if_splits)

lemma tabu_iteration_step:
  assumes "tabu_iteration config g s = Inr (Some s')"
  shows "\<exists>v new_color old_color val.
     v \<in> set (range1 (n g)) \<and> map_of (current_coloring s) v = Some old_color \<and>
     new_color \<noteq> old_color \<and> 1 \<le> new_color \<and> new_color \<le> max_color s + 1 \<and>
     any_conflict (current_coloring s) new_color (neighbors g v) = Inr False \<and>
     val = current_value s - old_color + new_color \<and>
     (iteration s + 1 \<le> tabu_until s (v, new_color) \<longrightarrow> val < best_value s) \<and>
     current_coloring s' = AList.update v new_color (current_coloring s) \<and>
     current_value s' = val \<and>
     tabu s' = AList.update (v, old_color) (iteration s + 1 + tabu_tenure config) (tabu s) \<and>
     iteration s' = iteration s + 1 \<and>
     max_color s' = max (max_color s) new_color \<and>
     (if val < best_value s
      then best_value s' = val \<and> best_coloring s' = current_coloring s' \<and>
           iterations_without_improve s' = 0
      else best_value s' = best_value s \<and> best_coloring s' = best_coloring s \<and>
           iterations_without_improve s' = iterations_without_improve s + 1)"
proof -
  define s1 where "s1 = s\<lparr>iteration := iteration s + 1\<rparr>"
  from assms obtain m val where
    sv: "scan_vertices g s1 (range1 (n g)) None = Inr (Some (m, val))" and
    am: "apply_move config s1 m val = Inr s'"
    by (auto simp: tabu_iteration_def Let_def s1_def split: sum.splits option.splits prod.splits)
  from scan_vertices_Some[OF sv] obtain v cc c where
    v: "v \<in> set (range1 (n g))" and cc: "map_of (current_coloring s1) v = Some cc" and
    m: "m = (v, c)" and rng: "c \<in> set (range2 1 (max_color s1 + 2))" and
    cand: "candidate g s1 v cc c = Inr (Some val)"
    by auto
  from rng have cr: "1 \<le> c" "c \<le> max_color s + 1" by (simp_all add: set_range2 s1_def)
  note cs = candidate_Some[OF cand]
  from apply_move_fields[OF am[unfolded m] cc] v cc cs cr show ?thesis
    by (intro exI[of _ v] exI[of _ c] exI[of _ cc] exI[of _ val])
       (auto simp: s1_def split: if_splits)
qed

lemma tabu_iteration_total:
  assumes "colored g (current_coloring s)"
  shows "\<exists>r. tabu_iteration config g s = Inr r"
proof -
  define s1 where "s1 = s\<lparr>iteration := iteration s + 1\<rparr>"
  have cur: "current_coloring s1 = current_coloring s" by (simp add: s1_def)
  from assms have "\<forall>v \<in> set (range1 (n g)). map_of (current_coloring s1) v \<noteq> None \<and>
       (\<forall>u \<in> set (neighbors g v). map_of (current_coloring s1) u \<noteq> None)"
    by (simp add: colored_def cur)
  from scan_vertices_total[OF this] obtain r where
    sv: "scan_vertices g s1 (range1 (n g)) None = Inr r" by blast
  show ?thesis
  proof (cases r)
    case None
    with sv show ?thesis by (simp add: tabu_iteration_def Let_def s1_def)
  next
    case (Some mv)
    obtain m val where mv: "mv = (m, val)" by (cases mv)
    from sv Some mv have "scan_vertices g s1 (range1 (n g)) None = Inr (Some (m, val))" by simp
    from scan_vertices_Some[OF this] obtain v c cc where
      "m = (v, c)" "map_of (current_coloring s1) v = Some cc" by auto
    then have "\<exists>s2. apply_move config s1 m val = Inr s2"
      by (simp add: apply_move_def getitem_def Let_def)
    with sv Some mv show ?thesis
      by (auto simp: tabu_iteration_def Let_def s1_def)
  qed
qed

lemma tabu_loop_rule:
  assumes "P s"
    and "\<And>s. P s \<Longrightarrow> loop_guard config s \<Longrightarrow>
           tabu_iteration config g s = Inr None \<or>
           (\<exists>s'. tabu_iteration config g s = Inr (Some s') \<and> P s')"
  shows "\<exists>sf. tabu_loop config g s = Inr sf \<and> P sf"
  using assms
proof (induction config g s rule: tabu_loop.induct)
  case (1 config g s)
  note step = "1.prems"(2)
  show ?case
  proof (cases "loop_guard config s")
    case False
    with "1.prems"(1) show ?thesis by (subst tabu_loop.simps) simp
  next
    case True
    from step[OF "1.prems"(1) True] show ?thesis
    proof
      assume "tabu_iteration config g s = Inr None"
      with True "1.prems"(1) show ?thesis by (subst tabu_loop.simps) simp
    next
      assume "\<exists>s'. tabu_iteration config g s = Inr (Some s') \<and> P s'"
      then obtain s' where st: "tabu_iteration config g s = Inr (Some s')" and p: "P s'" by blast
      from "1.IH"[OF True st refl p step] obtain sf where "tabu_loop config g s' = Inr sf \<and> P sf"
        by blast
      with True st show ?thesis by (subst tabu_loop.simps) simp
    qed
  qed
qed

lemma colored_update: "colored g c \<Longrightarrow> colored g (AList.update v x c)"
  by (simp add: colored_def update_conv')

lemma value_inv_step:
  assumes "value_inv g B s" and "tabu_iteration config g s = Inr (Some s')"
  shows "value_inv g B s'"
proof -
  from tabu_iteration_step[OF assms(2)] obtain v new_color old_color val where
    old: "map_of (current_coloring s) v = Some old_color" and
    val: "val = current_value s - old_color + new_color" and
    cur: "current_coloring s' = AList.update v new_color (current_coloring s)" and
    cv: "current_value s' = val" and
    best: "if val < best_value s
      then best_value s' = val \<and> best_coloring s' = current_coloring s' \<and>
           iterations_without_improve s' = 0
      else best_value s' = best_value s \<and> best_coloring s' = best_coloring s \<and>
           iterations_without_improve s' = iterations_without_improve s + 1"
    by blast
  from assms(1) have inv: "colored g (current_coloring s)"
    "current_value s = objective (current_coloring s)"
    "best_value s = objective (best_coloring s)" "best_value s \<le> B"
    by (simp_all add: value_inv_def)
  have 1: "colored g (current_coloring s')" using inv(1) cur by (simp add: colored_update)
  have 2: "current_value s' = objective (current_coloring s')"
    using cv val cur inv(2) objective_update[OF old] by simp
  show ?thesis
  proof (cases "val < best_value s")
    case True
    with best 1 2 cv inv(4) show ?thesis by (simp add: value_inv_def)
  next
    case False
    with best 1 2 inv(3,4) show ?thesis by (simp add: value_inv_def)
  qed
qed

lemma tabu_loop_value:
  assumes "value_inv g B s"
  shows "\<exists>sf. tabu_loop config g s = Inr sf \<and> value_inv g B sf"
proof (rule tabu_loop_rule[where P = "value_inv g B", OF assms])
  fix s assume inv: "value_inv g B s"
  then have "colored g (current_coloring s)" by (simp add: value_inv_def)
  from tabu_iteration_total[OF this] obtain r where r: "tabu_iteration config g s = Inr r" ..
  show "tabu_iteration config g s = Inr None \<or>
        (\<exists>s'. tabu_iteration config g s = Inr (Some s') \<and> value_inv g B s')"
  proof (cases r)
    case None
    with r show ?thesis by simp
  next
    case (Some s')
    with r value_inv_step[OF inv] show ?thesis by simp
  qed
qed

lemma value_inv_initial:
  "colored g c \<Longrightarrow> value_inv g (objective c) (initial_state c)"
  by (simp add: value_inv_def initial_state_def)

lemma feasible_update:
  assumes vg: "valid_graph g" and f: "feasible g c"
    and nc: "any_conflict c new_color (neighbors g v) = Inr False"
  shows "feasible g (AList.update v new_color c)"
proof -
  have m: "map_of (AList.update v new_color c) = (map_of c)(v \<mapsto> new_color)"
    by (rule update_conv')
  from any_conflict_False[OF nc] have nb:
    "\<And>u. u \<in> set (neighbors g v) \<Longrightarrow> \<exists>x. map_of c u = Some x \<and> x \<noteq> new_color" by blast
  have "map_of (AList.update v new_color c) a \<noteq> None \<and>
        map_of (AList.update v new_color c) b \<noteq> None \<and>
        map_of (AList.update v new_color c) a \<noteq> map_of (AList.update v new_color c) b"
    if e: "(a, b) \<in> set (edges g)" for a b
  proof -
    from f e have ab: "map_of c a \<noteq> None" "map_of c b \<noteq> None" "map_of c a \<noteq> map_of c b"
      by (auto simp: feasible_def)
    from vg e have sym: "(b, a) \<in> set (edges g)" and ne: "a \<noteq> b"
      by (auto simp: valid_graph_def)
    show ?thesis
    proof (cases "a = v")
      case True
      with e have "b \<in> set (neighbors g v)" by (simp add: edges_iff)
      from nb[OF this] True ne ab show ?thesis by (auto simp: m)
    next
      case False
      show ?thesis
      proof (cases "b = v")
        case True
        with sym have "a \<in> set (neighbors g v)" by (simp add: edges_iff)
        from nb[OF this] True False ab show ?thesis by (auto simp: m)
      next
        case False
        with \<open>a \<noteq> v\<close> ab show ?thesis by (simp add: m)
      qed
    qed
  qed
  moreover from f have "\<forall>u \<in> set (range1 (n g)). map_of (AList.update v new_color c) u \<noteq> None"
    by (simp add: feasible_def m)
  ultimately show ?thesis unfolding feasible_def by blast
qed

lemma feasible_inv_step:
  assumes "valid_graph g" and "feasible_inv g s" and "tabu_iteration config g s = Inr (Some s')"
  shows "feasible_inv g s'"
proof -
  from tabu_iteration_step[OF assms(3)] obtain v new_color val where
    nc: "any_conflict (current_coloring s) new_color (neighbors g v) = Inr False" and
    cur: "current_coloring s' = AList.update v new_color (current_coloring s)" and
    best: "if val < best_value s
      then best_value s' = val \<and> best_coloring s' = current_coloring s' \<and>
           iterations_without_improve s' = 0
      else best_value s' = best_value s \<and> best_coloring s' = best_coloring s \<and>
           iterations_without_improve s' = iterations_without_improve s + 1"
    by blast
  from assms(2) have f: "feasible g (current_coloring s)" "feasible g (best_coloring s)"
    by (simp_all add: feasible_inv_def)
  from feasible_update[OF assms(1) f(1) nc] cur have 1: "feasible g (current_coloring s')" by simp
  from best 1 f(2) have "feasible g (best_coloring s')" by (cases "val < best_value s") simp_all
  with 1 show ?thesis by (simp add: feasible_inv_def)
qed

lemma tabu_loop_feasible:
  assumes "valid_graph g" and "feasible_inv g s"
  shows "\<exists>sf. tabu_loop config g s = Inr sf \<and> feasible_inv g sf"
proof (rule tabu_loop_rule[where P = "feasible_inv g", OF assms(2)])
  fix s assume inv: "feasible_inv g s"
  then have "colored g (current_coloring s)" by (simp add: feasible_inv_def feasible_colored)
  from tabu_iteration_total[OF this] obtain r where r: "tabu_iteration config g s = Inr r" ..
  show "tabu_iteration config g s = Inr None \<or>
        (\<exists>s'. tabu_iteration config g s = Inr (Some s') \<and> feasible_inv g s')"
  proof (cases r)
    case None
    with r show ?thesis by simp
  next
    case (Some s')
    with r feasible_inv_step[OF assms(1) inv] show ?thesis by simp
  qed
qed

lemma tabu_search_feasible:
  assumes "valid_graph g" and "feasible g initial_coloring"
  shows "\<exists>coloring v. tabu_search_msc g initial_coloring config = Inr (coloring, v) \<and>
           feasible g coloring"
proof -
  from assms(2) have "feasible_inv g (initial_state initial_coloring)"
    by (simp add: feasible_inv_def initial_state_def)
  from tabu_loop_feasible[OF assms(1) this] obtain sf where
    "tabu_loop (case config of None \<Rightarrow> default_config | Some c \<Rightarrow> c) g
       (initial_state initial_coloring) = Inr sf" "feasible_inv g sf" by blast
  then show ?thesis by (simp add: tabu_search_msc_def feasible_inv_def Let_def)
qed

text \<open>The state the loop stops in is a state of the run.\<close>

lemma run_first_pass:
  assumes later: "run config g s' sf"
    and guard: "loop_guard config s" and pass: "tabu_iteration config g s = Inr (Some s')"
  shows "run config g s sf"
  using later
proof (induction rule: run.induct)
  case run_start
  show ?case by (rule run.run_pass[OF run.run_start guard pass])
next
  case (run_pass s1 s2)
  show ?case by (rule run.run_pass[OF run_pass.IH run_pass.hyps(2,3)])
qed

lemma tabu_loop_run: "tabu_loop config g s = Inr sf \<Longrightarrow> run config g s sf"
proof (induction config g s rule: tabu_loop.induct)
  case (1 config g s)
  show ?case
  proof (cases "loop_guard config s")
    case False
    with "1.prems" have "sf = s" by (subst (asm) tabu_loop.simps) simp
    then show ?thesis by (simp add: run_start)
  next
    case True
    with "1.prems" have *: "(case tabu_iteration config g s of Inl e \<Rightarrow> Inl e | Inr None \<Rightarrow> Inr s
        | Inr (Some s') \<Rightarrow> tabu_loop config g s') = Inr sf"
      by (subst (asm) tabu_loop.simps) simp
    show ?thesis
    proof (cases "tabu_iteration config g s")
      case (Inl e)
      with * show ?thesis by simp
    next
      case (Inr r)
      show ?thesis
      proof (cases r)
        case None
        with * Inr have "sf = s" by simp
        then show ?thesis by (simp add: run_start)
      next
        case (Some s')
        with * Inr have "tabu_loop config g s' = Inr sf" by simp
        from "1.IH"[OF True Inr Some this] True Inr Some show ?thesis
          by (auto intro: run_first_pass)
      qed
    qed
  qed
qed

lemma tabu_until_update:
  "tabu s' = AList.update m t (tabu s) \<Longrightarrow>
     tabu_until s' m' = (if m' = m then t else tabu_until s m')"
  by (simp add: tabu_until_def update_conv')

lemma run_tabu_until:
  assumes "run config g s' s''" and "T \<le> tabu_until s' m" and "T \<le> iteration s' + tabu_tenure config"
  shows "iteration s' \<le> iteration s'' \<and> T \<le> tabu_until s'' m"
  using assms
proof (induction rule: run.induct)
  case run_start
  then show ?case by simp
next
  case (run_pass s1 s2)
  from tabu_iteration_step[OF run_pass.hyps(3)] obtain v2 old2 where
    t: "tabu s2 = AList.update (v2, old2) (iteration s1 + 1 + tabu_tenure config) (tabu s1)" and
    i: "iteration s2 = iteration s1 + 1" by blast
  from run_pass.IH[OF run_pass.prems] have ih: "iteration s' \<le> iteration s1" "T \<le> tabu_until s1 m"
    by simp_all
  with run_pass.prems(2) i show ?case by (simp add: tabu_until_update[OF t])
qed

lemma objective_ge_length:
  "\<forall>x \<in> set c. 1 \<le> snd x \<Longrightarrow> int (length c) \<le> objective c"
  by (induction c) (auto simp: objective_def)

lemma length_update_present:
  "map_of c v = Some old \<Longrightarrow> length (AList.update v x c) = length c"
  by (induction c) auto

lemma set_update_subset: "set (AList.update v x c) \<subseteq> insert (v, x) (set c)"
  by (induction c) auto

lemma floor_inv_step:
  assumes inv: "floor_inv g c0 s" and step: "tabu_iteration config g s = Inr (Some s')"
  shows "floor_inv g c0 s'"
proof -
  from tabu_iteration_step[OF step] obtain v new_color old_color val where
    old: "map_of (current_coloring s) v = Some old_color" and
    pos: "1 \<le> new_color" and
    val: "val = current_value s - old_color + new_color" and
    cur: "current_coloring s' = AList.update v new_color (current_coloring s)" and
    cv: "current_value s' = val" and
    best: "if val < best_value s
      then best_value s' = val \<and> best_coloring s' = current_coloring s' \<and>
           iterations_without_improve s' = 0
      else best_value s' = best_value s \<and> best_coloring s' = best_coloring s \<and>
           iterations_without_improve s' = iterations_without_improve s + 1"
    by blast
  from inv have i: "colored g (current_coloring s)"
    "current_value s = objective (current_coloring s)"
    "length (current_coloring s) = length c0"
    "\<forall>x \<in> set (current_coloring s). 1 \<le> snd x"
    "best_coloring s = c0" "best_value s = int (length c0)"
    by (simp_all add: floor_inv_def)
  have 1: "colored g (current_coloring s')" using i(1) cur by (simp add: colored_update)
  have 2: "current_value s' = objective (current_coloring s')"
    using cv val cur i(2) objective_update[OF old] by simp
  have 3: "length (current_coloring s') = length c0"
    using cur i(3) length_update_present[OF old] by simp
  have 4: "\<forall>x \<in> set (current_coloring s'). 1 \<le> snd x"
    using set_update_subset[of v new_color "current_coloring s"] i(4) pos cur by auto
  from objective_ge_length[OF 4] 2 3 cv have "int (length c0) \<le> val" by simp
  with i(6) have "\<not> val < best_value s" by simp
  with best i(5,6) have "best_coloring s' = c0" "best_value s' = int (length c0)" by simp_all
  with 1 2 3 4 show ?thesis by (simp add: floor_inv_def)
qed

lemma tabu_loop_floor:
  assumes "floor_inv g c0 s"
  shows "\<exists>sf. tabu_loop config g s = Inr sf \<and> floor_inv g c0 sf"
proof (rule tabu_loop_rule[where P = "floor_inv g c0", OF assms])
  fix s assume inv: "floor_inv g c0 s"
  then have "colored g (current_coloring s)" by (simp add: floor_inv_def)
  from tabu_iteration_total[OF this] obtain r where r: "tabu_iteration config g s = Inr r" ..
  show "tabu_iteration config g s = Inr None \<or>
        (\<exists>s'. tabu_iteration config g s = Inr (Some s') \<and> floor_inv g c0 s')"
  proof (cases r)
    case None
    with r show ?thesis by simp
  next
    case (Some s')
    with r floor_inv_step[OF inv] show ?thesis by simp
  qed
qed

lemma no_edges_neighbors: "edges g = [] \<Longrightarrow> neighbors g v = []"
proof -
  assume "edges g = []"
  then have "\<And>u. u \<notin> set (neighbors g v)" using edges_iff[of v _ g] by simp
  then show ?thesis by (cases "neighbors g v") auto
qed

section \<open>Properties of the greedy constructor\<close>

declare first_free.simps [simp del]

lemma first_free_spec:
  "c \<le> first_free F c \<and> first_free F c \<notin> set F \<and> (\<forall>x. c \<le> x \<and> x < first_free F c \<longrightarrow> x \<in> set F)"
proof (induction F c rule: first_free.induct)
  case (1 F c)
  show ?case
  proof (cases "c \<in> set F")
    case True
    then have eq: "first_free F c = first_free F (c + 1)" by (subst first_free.simps) simp
    from "1.IH"[OF True] have ih: "c + 1 \<le> first_free F (c + 1)" "first_free F (c + 1) \<notin> set F"
      "\<forall>x. c + 1 \<le> x \<and> x < first_free F (c + 1) \<longrightarrow> x \<in> set F" by simp_all
    have "x \<in> set F" if "c \<le> x" "x < first_free F (c + 1)" for x
    proof (cases "x = c")
      case True
      with \<open>c \<in> set F\<close> show ?thesis by simp
    next
      case False
      with that ih(3) show ?thesis by simp
    qed
    with ih show ?thesis unfolding eq by auto
  next
    case False
    then have "first_free F c = c" by (subst first_free.simps) simp
    with False show ?thesis by auto
  qed
qed

lemma first_free_cong_set:
  "set F = set F' \<Longrightarrow> first_free F c = first_free F' c"
proof (induction F c rule: first_free.induct)
  case (1 F c)
  show ?case
  proof (cases "c \<in> set F")
    case True
    with "1.prems" have "c \<in> set F'" by simp
    with True "1.IH"[OF True "1.prems"] show ?thesis
      by (subst first_free.simps, subst (2) first_free.simps) simp
  next
    case False
    with "1.prems" have "c \<notin> set F'" by simp
    with False show ?thesis by (subst first_free.simps, subst (2) first_free.simps) simp
  qed
qed

lemma map_of_color_vertex:
  "map_of (color_vertex g c v) = (map_of c)(v \<mapsto> first_free (forbidden_colors g c v) 1)"
  by (simp add: color_vertex_def update_conv')

lemma greedy_loop_append:
  "greedy_loop g (xs @ ys) c = greedy_loop g ys (greedy_loop g xs c)"
  by (induction xs arbitrary: c) simp_all

lemma greedy_loop_other:
  "u \<notin> set vs \<Longrightarrow> map_of (greedy_loop g vs c) u = map_of c u"
  by (induction vs arbitrary: c) (simp_all add: map_of_color_vertex)

lemma greedy_loop_dom:
  "dom (map_of (greedy_loop g vs c)) = dom (map_of c) \<union> set vs"
  by (induction vs arbitrary: c) (auto simp: map_of_color_vertex)

lemma set_forbidden_colors:
  "set (forbidden_colors g c v) = {x. \<exists>u \<in> set (neighbors g v). map_of c u = Some x}"
proof -
  have "set (forbidden_colors g c v) \<subseteq> {x. \<exists>u \<in> set (neighbors g v). map_of c u = Some x}"
    by (auto simp: forbidden_colors_def)
  moreover have "x \<in> set (forbidden_colors g c v)"
    if "u \<in> set (neighbors g v)" "map_of c u = Some x" for u x
  proof -
    from that have "u \<in> set (filter (\<lambda>u. map_of c u \<noteq> None) (neighbors g v))" by simp
    then have "the (map_of c u) \<in> set (forbidden_colors g c v)"
      unfolding forbidden_colors_def by (simp only: set_map image_eqI)
    with that show ?thesis by simp
  qed
  ultimately show ?thesis by blast
qed

text \<open>The color of the i-th vertex of the processing order, in terms of the final coloring.\<close>

lemma greedy_loop_nth:
  fixes g :: Graph and vs :: "Vertex list" and i :: nat
  assumes d: "distinct vs" and i: "i < length vs"
  defines "cf \<equiv> greedy_loop g vs []"
  defines "F \<equiv> {x. \<exists>u \<in> set (neighbors g (vs ! i)) \<inter> set (take i vs). map_of cf u = Some x}"
  shows "\<exists>x. map_of cf (vs ! i) = Some x \<and> 1 \<le> x \<and> x \<notin> F \<and> (\<forall>y. 1 \<le> y \<and> y < x \<longrightarrow> y \<in> F)"
proof -
  define v where "v = vs ! i"
  define ci where "ci = greedy_loop g (take i vs) []"
  have split: "vs = take i vs @ v # drop (Suc i) vs"
    using i by (simp add: v_def id_take_nth_drop)
  have cf: "cf = greedy_loop g (drop (Suc i) vs) (color_vertex g ci v)"
    unfolding cf_def ci_def by (subst split) (simp add: greedy_loop_append)
  from d split have vnot: "v \<notin> set (drop (Suc i) vs)" "v \<notin> set (take i vs)"
proof -
    from d split have "distinct (take i vs @ v # drop (Suc i) vs)" by simp
    then show "v \<notin> set (drop (Suc i) vs)" "v \<notin> set (take i vs)" by auto
  qed
  have dom_ci: "dom (map_of ci) = set (take i vs)"
    by (simp add: ci_def greedy_loop_dom)
  have keep: "map_of cf u = map_of ci u" if "u \<in> set (take i vs)" for u
  proof -
    from d split have "distinct (take i vs @ v # drop (Suc i) vs)" by simp
    with that have "u \<notin> set (drop (Suc i) vs)" "u \<noteq> v" by auto
    then show ?thesis by (simp add: cf greedy_loop_other map_of_color_vertex)
  qed
  have "set (forbidden_colors g ci v) = F"
  proof -
    have "(\<exists>u \<in> set (neighbors g v). map_of ci u = Some x) \<longleftrightarrow>
          (\<exists>u \<in> set (neighbors g v) \<inter> set (take i vs). map_of cf u = Some x)" for x
    proof
      assume "\<exists>u \<in> set (neighbors g v). map_of ci u = Some x"
      then obtain u where u: "u \<in> set (neighbors g v)" "map_of ci u = Some x" by blast
      then have "u \<in> set (take i vs)" using dom_ci by blast
      with u keep[of u] show "\<exists>u \<in> set (neighbors g v) \<inter> set (take i vs). map_of cf u = Some x"
        by auto
    next
      assume "\<exists>u \<in> set (neighbors g v) \<inter> set (take i vs). map_of cf u = Some x"
      then obtain u where "u \<in> set (neighbors g v)" "u \<in> set (take i vs)" "map_of cf u = Some x"
        by blast
      with keep[of u] show "\<exists>u \<in> set (neighbors g v). map_of ci u = Some x" by auto
    qed
    then show ?thesis by (simp add: set_forbidden_colors F_def v_def)
  qed
  moreover have "map_of cf v = Some (first_free (forbidden_colors g ci v) 1)"
    using vnot(1) by (simp add: cf greedy_loop_other map_of_color_vertex)
  ultimately show ?thesis
    using first_free_spec[of 1 "forbidden_colors g ci v"] by (simp add: v_def)
qed

lemma greedy_order_set: "set (greedy_order g) = {0..<n g}"
  by (simp add: greedy_order_def set_range1)

lemma distinct_range1: "distinct (range1 k)"
  by (simp add: range1_def range2_def)

lemma greedy_order_distinct: "distinct (greedy_order g)"
  by (simp add: greedy_order_def distinct_range1)

lemma greedy_order_sorted:
  "sorted_wrt (\<lambda>a b. degree g b < degree g a \<or> (degree g a = degree g b \<and> a < b)) (greedy_order g)"
proof -
  let ?k = "\<lambda>v. (- int (degree g v), v)"
  have "sorted (map ?k (greedy_order g))" by (simp add: greedy_order_def)
  then have "sorted_wrt (\<lambda>a b. ?k a \<le> ?k b) (greedy_order g)"
    by (simp add: sorted_map)
  moreover have "distinct (greedy_order g)" by (rule greedy_order_distinct)
  ultimately have "sorted_wrt (\<lambda>a b. ?k a \<le> ?k b \<and> a \<noteq> b) (greedy_order g)"
    by (simp add: sorted_wrt_iff_nth_less nth_eq_iff_index_eq)
  then show ?thesis
    by (rule sorted_wrt_mono_rel[rotated]) (auto simp: less_eq_prod_def)
qed

lemma greedy_loop_keys:
  "distinct vs \<Longrightarrow> set vs \<inter> fst ` set c = {} \<Longrightarrow> map fst (greedy_loop g vs c) = map fst c @ vs"
proof (induction vs arbitrary: c)
  case Nil
  then show ?case by simp
next
  case (Cons v vs)
  have k: "map fst (color_vertex g c v) = map fst c @ [v]"
    using Cons.prems(2) by (simp add: color_vertex_def update_keys)
  then have "fst ` set (color_vertex g c v) = fst ` set c \<union> {v}"
    by (metis list.set_map set_append list.set(1) list.set(2))
  with Cons.prems have "set vs \<inter> fst ` set (color_vertex g c v) = {}" by auto
  with Cons.IH[of "color_vertex g c v"] Cons.prems(1) k show ?case by simp
qed

lemma greedy_msc_fst: "fst (greedy_msc g) = greedy_loop g (greedy_order g) []"
  by (simp add: greedy_msc_def Let_def)

lemma greedy_feasible:
  assumes vg: "valid_graph g"
  shows "feasible g (fst (greedy_msc g))"
proof -
  let ?o = "greedy_order g"
  let ?cf = "greedy_loop g ?o []"
  have dom: "dom (map_of ?cf) = {0..<n g}"
    by (simp add: greedy_loop_dom greedy_order_set)
  have diff: "map_of ?cf (?o ! i) \<noteq> map_of ?cf (?o ! j)"
    if "j < i" "i < length ?o" "?o ! j \<in> set (neighbors g (?o ! i))" for i j
  proof -
    from that(1,2) have "j < length (take i ?o)" "take i ?o ! j = ?o ! j" by simp_all
    then have "?o ! j \<in> set (take i ?o)" by (metis nth_mem)
    moreover from that(1,2) have "?o ! j \<in> set ?o" by simp
    with dom have "?o ! j \<in> dom (map_of ?cf)" by (simp add: greedy_order_set)
    then obtain y where y: "map_of ?cf (?o ! j) = Some y" by blast
    moreover from greedy_loop_nth[OF greedy_order_distinct that(2), of g] obtain x where
      "map_of ?cf (?o ! i) = Some x"
      "x \<notin> {x. \<exists>u \<in> set (neighbors g (?o ! i)) \<inter> set (take i ?o). map_of ?cf u = Some x}"
      by (elim exE conjE)
    ultimately show ?thesis using that(3) by auto
  qed
  have "map_of ?cf a \<noteq> None \<and> map_of ?cf b \<noteq> None \<and> map_of ?cf a \<noteq> map_of ?cf b"
    if e: "(a, b) \<in> set (edges g)" for a b
  proof -
    from vg e have r: "a \<in> {0..<n g}" "b \<in> {0..<n g}" and ne: "a \<noteq> b"
      and sym: "(b, a) \<in> set (edges g)"
      by (auto simp: valid_graph_def)
    from r have "a \<in> set ?o" "b \<in> set ?o" by (simp_all add: greedy_order_set)
    then obtain i j where i: "i < length ?o" "?o ! i = a" and j: "j < length ?o" "?o ! j = b"
      by (auto simp: in_set_conv_nth)
    from ne i j have "i \<noteq> j" by auto
    then consider "j < i" | "i < j" by linarith
    then have "map_of ?cf a \<noteq> map_of ?cf b"
    proof cases
      case 1
      from e i j have "?o ! j \<in> set (neighbors g (?o ! i))" by (simp add: edges_iff)
      from diff[OF 1 i(1) this] i j show ?thesis by auto
    next
      case 2
      from sym i j have "?o ! i \<in> set (neighbors g (?o ! j))" by (simp add: edges_iff)
      from diff[OF 2 j(1) this] i j show ?thesis by auto
    qed
    with r dom show ?thesis by blast
  qed
  moreover have "\<forall>v \<in> set (range1 (n g)). map_of ?cf v \<noteq> None"
    using dom by (auto simp: set_range1)
  ultimately show ?thesis unfolding feasible_def greedy_msc_fst by blast
qed

lemma degree_cong: "set (neighbors g v) = set (neighbors g' v) \<Longrightarrow> degree g v = degree g' v"
  by (simp add: degree_def length_remdups_card_conv)

lemma color_vertex_cong:
  assumes "\<And>v. set (neighbors g v) = set (neighbors g' v)"
  shows "color_vertex g c v = color_vertex g' c v"
proof -
  have "set (forbidden_colors g c v) = set (forbidden_colors g' c v)"
    by (simp add: set_forbidden_colors assms)
  from first_free_cong_set[OF this] show ?thesis by (simp add: color_vertex_def)
qed

lemma greedy_loop_cong:
  assumes "\<And>v. set (neighbors g v) = set (neighbors g' v)"
  shows "greedy_loop g vs c = greedy_loop g' vs c"
  by (induction vs arbitrary: c) (simp_all add: color_vertex_cong[OF assms])

lemma greedy_msc_cong:
  assumes "n g = n g'" and "\<And>v. set (neighbors g v) = set (neighbors g' v)"
  shows "greedy_msc g = greedy_msc g'"
proof -
  have "greedy_order g = greedy_order g'"
    by (simp add: greedy_order_def assms(1) degree_cong[OF assms(2)])
  then show ?thesis by (simp add: greedy_msc_def greedy_loop_cong[OF assms(2)])
qed

section \<open>Properties of graph generation\<close>

lemma p_check: "(float_le (Finite 0) p \<and> float_le p (Finite 1)) = in_unit_interval p"
  by (cases p) (simp_all add: in_unit_interval_def)

lemma adj_add_total:
  assumes "has_keys num a" and "0 \<le> u" and "u < num"
  shows "\<exists>a'. adj_add a u v = Inr a' \<and> has_keys num a'"
proof -
  from assms have "map_of a u \<noteq> None" by (simp add: has_keys_def)
  then obtain ns where "map_of a u = Some ns" by (cases "map_of a u") auto
  moreover have "has_keys num (AList.update u x a)" for x
    using assms(1) by (simp add: has_keys_def update_conv')
  ultimately show ?thesis by (simp add: adj_add_def)
qed

lemma edges_from_total:
  assumes "has_keys num a" and "0 \<le> u" and "u < num" and "set vs \<subseteq> {0..<num}"
  shows "\<exists>a' k'. edges_from r p u vs (a, k) = Inr (a', k') \<and> has_keys num a'"
  using assms
proof (induction vs arbitrary: a k)
  case Nil
  then show ?case by simp
next
  case (Cons v vs)
  from Cons.prems have v: "0 \<le> v" "v < num" and vs: "set vs \<subseteq> {0..<num}" by auto
  show ?case
  proof (cases "float_lt (Finite (r k)) p")
    case True
    from adj_add_total[OF Cons.prems(1-3)] obtain a1 where
      a1: "adj_add a u v = Inr a1" "has_keys num a1" by blast
    from adj_add_total[OF a1(2) v] obtain a2 where
      a2: "adj_add a1 v u = Inr a2" "has_keys num a2" by blast
    from Cons.IH[OF a2(2) Cons.prems(2,3) vs] True a1 a2 show ?thesis by simp
  next
    case False
    with Cons.IH[OF Cons.prems(1-3) vs] show ?thesis by simp
  qed
qed

lemma all_edges_total:
  assumes "has_keys num a" and "set us \<subseteq> {0..<num}"
  shows "\<exists>a' k'. all_edges r p num us (a, k) = Inr (a', k') \<and> has_keys num a'"
  using assms
proof (induction us arbitrary: a k)
  case Nil
  then show ?case by simp
next
  case (Cons u us)
  from Cons.prems have u: "0 \<le> u" "u < num" and us: "set us \<subseteq> {0..<num}" by auto
  from u have "set (range2 (u + 1) num) \<subseteq> {0..<num}" by (auto simp: set_range2)
  from edges_from_total[OF Cons.prems(1) u this] obtain a' k' where
    e: "edges_from r p u (range2 (u + 1) num) (a, k) = Inr (a', k')" "has_keys num a'" by blast
  from Cons.IH[OF e(2) us] e(1) show ?case by simp
qed

lemma initial_adjacency_keys: "has_keys num (map (\<lambda>v. (v, [])) (range1 num))"
  by (auto simp: has_keys_def map_of_map_restrict set_range1)

lemma generate_total:
  assumes "in_unit_interval p"
  shows "\<exists>g. generate_erdos_renyi_graph seeded unseeded num p seed = Inr g \<and> n g = num"
proof -
  have "set (range1 num) \<subseteq> {0..<num}" by (simp add: set_range1)
  from all_edges_total[OF initial_adjacency_keys this,
      of "Random seeded unseeded seed" p 0] obtain a' k' where
    "all_edges (Random seeded unseeded seed) p num (range1 num)
       (map (\<lambda>v. (v, [])) (range1 num), 0) = Inr (a', k')"
    by blast
  with assms show ?thesis
    by (simp add: generate_erdos_renyi_graph_def p_check Let_def)
qed

lemma generate_seeded:
  "generate_erdos_renyi_graph seeded unseeded num p (Some seed) =
   generate_erdos_renyi_graph seeded unseeded' num p (Some seed)"
  by (simp add: generate_erdos_renyi_graph_def Random_def)

lemma map_enumerate_seeds:
  "map (\<lambda>(i, s). generate_erdos_renyi_graph seeded (unseeded i) num p s)
       (enumerate k (map (\<lambda>i. Some (b + i)) xs)) =
   map (\<lambda>i. generate_erdos_renyi_graph seeded unseeded' num p (Some (b + i))) xs"
proof (induction xs arbitrary: k)
  case Nil
  then show ?case by simp
next
  case (Cons x xs)
  then show ?case using generate_seeded[of seeded "unseeded k" num p "b + x" unseeded'] by simp
qed

lemma batch_seeded:
  "generate_random_graphs seeded unseeded count num p (Some base_seed) =
   collect (map (\<lambda>i. generate_erdos_renyi_graph seeded unseeded' num p (Some (base_seed + i)))
             (range1 count))"
  using map_enumerate_seeds[of seeded unseeded num p 0 base_seed "range1 count" unseeded']
  by (simp add: generate_random_graphs_def)

section \<open>Results on the tabu search\<close>

text \<open>A path of two vertices with a feasible coloring, used to instantiate the results.\<close>

lemma path2_feasible:
  "feasible \<lparr>n = 2, adj = [(0, [1]), (1, [0])]\<rparr> [(0, 1), (1, 2)]"
  by (simp add: feasible_def edges_def neighbors_def range1_def range2_def upto.simps)

text \<open>
  Claim C1 (non-regression). For every graph, every feasible initial coloring and every
  configuration (also the default one, \<open>None\<close>), \<open>tabu_search_msc\<close> returns, and the
  objective value it returns is at most the sum of the colors of the initial coloring.
\<close>

theorem tabu_non_regression:
  assumes "feasible g initial_coloring"
  shows "\<exists>coloring v. tabu_search_msc g initial_coloring config = Inr (coloring, v) \<and>
           v \<le> objective initial_coloring"
proof -
  from assms have "value_inv g (objective initial_coloring) (initial_state initial_coloring)"
    by (intro value_inv_initial feasible_colored)
  from tabu_loop_value[OF this] obtain sf where
    "tabu_loop (case config of None \<Rightarrow> default_config | Some c \<Rightarrow> c) g
       (initial_state initial_coloring) = Inr sf"
    "value_inv g (objective initial_coloring) sf" by blast
  then show ?thesis
    by (simp add: tabu_search_msc_def value_inv_def Let_def)
qed

theorem tabu_non_regression_witness:
  "feasible \<lparr>n = 2, adj = [(0, [1]), (1, [0])]\<rparr> [(0, 1), (1, 2)] \<and>
   (\<exists>coloring v. tabu_search_msc \<lparr>n = 2, adj = [(0, [1]), (1, [0])]\<rparr> [(0, 1), (1, 2)] None
        = Inr (coloring, v) \<and> v \<le> 3)"
  using tabu_non_regression[OF path2_feasible, of None] path2_feasible
  by (simp add: objective_def)

text \<open>
  Claim C5 (the incremental objective is the sum). For every graph, feasible initial
  coloring and configuration, \<open>tabu_search_msc\<close> returns, and the integer it returns,
  kept up to date by \<open>new_color - old_color\<close> at each applied move, equals the sum of
  the colors of the coloring it returns.
\<close>

theorem tabu_objective_is_sum:
  assumes "feasible g initial_coloring"
  shows "\<exists>coloring v. tabu_search_msc g initial_coloring config = Inr (coloring, v) \<and>
           v = sum_list (map snd coloring)"
proof -
  from assms have "value_inv g (objective initial_coloring) (initial_state initial_coloring)"
    by (intro value_inv_initial feasible_colored)
  from tabu_loop_value[OF this] obtain sf where
    "tabu_loop (case config of None \<Rightarrow> default_config | Some c \<Rightarrow> c) g
       (initial_state initial_coloring) = Inr sf"
    "value_inv g (objective initial_coloring) sf" by blast
  then show ?thesis
    by (simp add: tabu_search_msc_def value_inv_def Let_def objective_def)
qed

theorem tabu_objective_is_sum_witness:
  "feasible \<lparr>n = 2, adj = [(0, [1]), (1, [0])]\<rparr> [(0, 1), (1, 2)] \<and>
   (\<exists>coloring v. tabu_search_msc \<lparr>n = 2, adj = [(0, [1]), (1, [0])]\<rparr> [(0, 1), (1, 2)]
          (Some \<lparr>max_iterations = 5, tabu_tenure = 2, max_no_improve = 3\<rparr>)
        = Inr (coloring, v) \<and> v = sum_list (map snd coloring))"
  using tabu_objective_is_sum[OF path2_feasible,
      of "Some \<lparr>max_iterations = 5, tabu_tenure = 2, max_no_improve = 3\<rparr>"] path2_feasible
  by simp

text \<open>
  Claim C10 (no iteration allowed). For every graph and every coloring, total or not, a
  configuration with \<open>max_iterations \<le> 0\<close> or \<open>max_no_improve \<le> 0\<close> makes
  \<open>tabu_search_msc\<close> apply no move: it returns the initial coloring and the sum of its
  colors.
\<close>

theorem tabu_no_iterations:
  assumes "max_iterations config \<le> 0 \<or> max_no_improve config \<le> 0"
  shows "tabu_search_msc g initial_coloring (Some config)
           = Inr (initial_coloring, sum_list (map snd initial_coloring))"
proof -
  from assms have "\<not> loop_guard config (initial_state initial_coloring)"
    by (auto simp: loop_guard_def initial_state_def)
  then have "tabu_loop config g (initial_state initial_coloring) = Inr (initial_state initial_coloring)"
    by (subst tabu_loop.simps) simp
  then show ?thesis
    by (simp add: tabu_search_msc_def initial_state_def objective_def)
qed

theorem tabu_no_iterations_witness:
  "tabu_search_msc \<lparr>n = 2, adj = [(0, [1]), (1, [0])]\<rparr> [(0, 4), (1, 2)]
       (Some \<lparr>max_iterations = 0, tabu_tenure = 7, max_no_improve = 100\<rparr>)
     = Inr ([(0, 4), (1, 2)], 6) \<and>
   tabu_search_msc \<lparr>n = 2, adj = [(0, [1]), (1, [0])]\<rparr> [(0, 4), (1, 2)]
       (Some \<lparr>max_iterations = 500, tabu_tenure = 7, max_no_improve = - 1\<rparr>)
     = Inr ([(0, 4), (1, 2)], 6)"
  using tabu_no_iterations[of "\<lparr>max_iterations = 0, tabu_tenure = 7, max_no_improve = 100\<rparr>"
          "\<lparr>n = 2, adj = [(0, [1]), (1, [0])]\<rparr>" "[(0, 4), (1, 2)]"]
        tabu_no_iterations[of "\<lparr>max_iterations = 500, tabu_tenure = 7, max_no_improve = - 1\<rparr>"
          "\<lparr>n = 2, adj = [(0, [1]), (1, [0])]\<rparr>" "[(0, 4), (1, 2)]"]
  by simp

text \<open>
  Claim C3 (tabu respects tenure). Let a pass of the loop, from state \<open>s\<close> to state
  \<open>s'\<close>, apply a move that takes vertex \<open>v\<close> from color \<open>a\<close> to color \<open>b\<close>; this is
  iteration \<open>t = iteration s'\<close>. At every later loop state \<open>s''\<close> of the run whose next
  iteration number \<open>iteration s'' + 1\<close> is at most \<open>t + tabu_tenure\<close>, the move
  \<open>(v, a)\<close> is tabu, and the filters of the scan let it through only with a value
  strictly below the best value: aspiration is the sole exception.
\<close>

theorem tabu_respects_tenure:
  assumes step: "tabu_iteration config g s = Inr (Some s')"
    and a: "map_of (current_coloring s) v = Some a"
    and b: "map_of (current_coloring s') v = Some b"
    and ab: "a \<noteq> b"
    and later: "run config g s' s''"
    and within: "iteration s'' + 1 \<le> iteration s' + tabu_tenure config"
  shows "iteration s'' + 1 \<le> tabu_until s'' (v, a) \<and>
         (\<forall>current_color new_value.
            candidate g (s''\<lparr>iteration := iteration s'' + 1\<rparr>) v current_color a = Inr (Some new_value)
            \<longrightarrow> new_value < best_value s'')"
proof -
  from tabu_iteration_step[OF step] obtain w new_color old_color where
    old: "map_of (current_coloring s) w = Some old_color" and
    cur: "current_coloring s' = AList.update w new_color (current_coloring s)" and
    t: "tabu s' = AList.update (w, old_color) (iteration s + 1 + tabu_tenure config) (tabu s)" and
    i: "iteration s' = iteration s + 1" by blast
  have "w = v"
  proof (rule ccontr)
    assume "w \<noteq> v"
    with cur have "map_of (current_coloring s') v = map_of (current_coloring s) v"
      by (simp add: update_conv')
    with a b ab show False by simp
  qed
  with old a have "old_color = a" by simp
  with \<open>w = v\<close> i have "tabu_until s' (v, a) = iteration s' + tabu_tenure config"
    by (simp add: tabu_until_update[OF t])
  then have "iteration s' + tabu_tenure config \<le> tabu_until s' (v, a)" by simp
  from run_tabu_until[OF later this] have "iteration s' + tabu_tenure config \<le> tabu_until s'' (v, a)"
    by simp
  with within have is_tabu: "iteration s'' + 1 \<le> tabu_until s'' (v, a)" by simp
  have "new_value < best_value s''"
    if "candidate g (s''\<lparr>iteration := iteration s'' + 1\<rparr>) v current_color a = Inr (Some new_value)"
    for current_color new_value
    using candidate_Some[OF that] is_tabu by simp
  with is_tabu show ?thesis by blast
qed

theorem tabu_respects_tenure_witness:
  "tabu_iteration default_config \<lparr>n = 1, adj = []\<rparr> (initial_state [(0, 2)])
     = Inr (Some \<lparr>current_coloring = [(0, 1)], current_value = 1, best_coloring = [(0, 1)],
          best_value = 1, tabu = [((0, 2), 8)], max_color = 2, iterations_without_improve = 0,
          iteration = 1\<rparr>) \<and>
   map_of (current_coloring (initial_state [(0, 2)])) 0 = Some 2 \<and>
   (1::int) + 1 \<le> 1 + tabu_tenure default_config \<and>
   (1::int) + 1 \<le> tabu_until \<lparr>current_coloring = [(0, 1)], current_value = 1,
          best_coloring = [(0, 1)], best_value = 1, tabu = [((0, 2), 8)], max_color = 2,
          iterations_without_improve = 0, iteration = 1\<rparr> (0, 2) \<and>
   candidate \<lparr>n = 1, adj = []\<rparr> \<lparr>current_coloring = [(0, 1)], current_value = 1,
          best_coloring = [(0, 1)], best_value = 1, tabu = [((0, 2), 8)], max_color = 2,
          iterations_without_improve = 0, iteration = 2\<rparr> 0 1 2 = Inr None"
proof -
  let ?g = "\<lparr>n = 1, adj = []\<rparr>"
  let ?s' = "\<lparr>current_coloring = [(0, 1)], current_value = 1, best_coloring = [(0, 1)],
          best_value = 1, tabu = [((0, 2), 8)], max_color = 2, iterations_without_improve = 0,
          iteration = 1\<rparr>"
  have step: "tabu_iteration default_config ?g (initial_state [(0, 2)]) = Inr (Some ?s')"
    by (simp add: tabu_iteration_def initial_state_def objective_def range1_def range2_def
          upto.simps getitem_def candidate_def neighbors_def tabu_until_def apply_move_def
          default_config_def)
  have a: "map_of (current_coloring (initial_state [(0, 2)])) 0 = Some 2"
    by (simp add: initial_state_def)
  have b: "map_of (current_coloring ?s') 0 = Some 1" by simp
  have within: "iteration ?s' + 1 \<le> iteration ?s' + tabu_tenure default_config"
    by (simp add: default_config_def)
  have cand: "candidate ?g (?s'\<lparr>iteration := iteration ?s' + 1\<rparr>) 0 1 2 = Inr None"
    by (simp add: candidate_def neighbors_def tabu_until_def)
  from tabu_respects_tenure[OF step a b _ run_start within] step a within cand
  show ?thesis by simp
qed

section \<open>Results on the greedy constructor\<close>

text \<open>
  Claim C4 (the greedy algorithm). For every graph, the order in which \<open>greedy_msc\<close>
  processes the vertices holds every vertex of \<open>range(n)\<close> once, by non-increasing
  degree and, at equal degree, by ascending vertex id; the keys of the returned
  coloring, in insertion order, are that order; each vertex has the smallest positive
  integer that none of its neighbours colored before it has; and the integer returned
  is the sum of the colors.
\<close>

theorem greedy_msc_spec:
  "set (greedy_order g) = {0..<n g} \<and> distinct (greedy_order g) \<and>
   sorted_wrt (\<lambda>a b. degree g b < degree g a \<or> (degree g a = degree g b \<and> a < b)) (greedy_order g) \<and>
   map fst (fst (greedy_msc g)) = greedy_order g \<and>
   (\<forall>i < length (greedy_order g).
      \<exists>x. map_of (fst (greedy_msc g)) (greedy_order g ! i) = Some x \<and>
          smallest_free_color (earlier_neighbor_colors g (greedy_order g) (fst (greedy_msc g)) i) x) \<and>
   snd (greedy_msc g) = sum_list (map snd (fst (greedy_msc g)))"
proof (intro conjI allI impI)
  show "set (greedy_order g) = {0..<n g}" by (rule greedy_order_set)
  show "distinct (greedy_order g)" by (rule greedy_order_distinct)
  show "sorted_wrt (\<lambda>a b. degree g b < degree g a \<or> (degree g a = degree g b \<and> a < b))
          (greedy_order g)" by (rule greedy_order_sorted)
  show "map fst (fst (greedy_msc g)) = greedy_order g"
    using greedy_loop_keys[OF greedy_order_distinct, of g "[]"] by (simp add: greedy_msc_fst)
  show "snd (greedy_msc g) = sum_list (map snd (fst (greedy_msc g)))"
    by (simp add: greedy_msc_def Let_def)
next
  fix i assume "i < length (greedy_order g)"
  from greedy_loop_nth[OF greedy_order_distinct this, of g]
  show "\<exists>x. map_of (fst (greedy_msc g)) (greedy_order g ! i) = Some x \<and>
          smallest_free_color (earlier_neighbor_colors g (greedy_order g) (fst (greedy_msc g)) i) x"
    by (simp only: smallest_free_color_def earlier_neighbor_colors_def greedy_msc_fst mem_Collect_eq)
qed

theorem greedy_msc_spec_witness:
  "(2::nat) < length (greedy_order \<lparr>n = 4, adj = [(0, [1]), (1, [0, 2]), (2, [1, 3]), (3, [2])]\<rparr>) \<and>
   (\<exists>x. map_of (fst (greedy_msc \<lparr>n = 4, adj = [(0, [1]), (1, [0, 2]), (2, [1, 3]), (3, [2])]\<rparr>))
          (greedy_order \<lparr>n = 4, adj = [(0, [1]), (1, [0, 2]), (2, [1, 3]), (3, [2])]\<rparr> ! 2) = Some x \<and>
        smallest_free_color
          (earlier_neighbor_colors \<lparr>n = 4, adj = [(0, [1]), (1, [0, 2]), (2, [1, 3]), (3, [2])]\<rparr>
             (greedy_order \<lparr>n = 4, adj = [(0, [1]), (1, [0, 2]), (2, [1, 3]), (3, [2])]\<rparr>)
             (fst (greedy_msc \<lparr>n = 4, adj = [(0, [1]), (1, [0, 2]), (2, [1, 3]), (3, [2])]\<rparr>)) 2) x)"
proof -
  let ?g = "\<lparr>n = 4, adj = [(0, [1]), (1, [0, 2]), (2, [1, 3]), (3, [2])]\<rparr>"
  have len: "(2::nat) < length (greedy_order ?g)"
    by (simp add: greedy_order_def range1_def range2_def)
  from greedy_msc_spec[of ?g] have
    "\<forall>i < length (greedy_order ?g).
      \<exists>x. map_of (fst (greedy_msc ?g)) (greedy_order ?g ! i) = Some x \<and>
          smallest_free_color (earlier_neighbor_colors ?g (greedy_order ?g) (fst (greedy_msc ?g)) i) x"
    by (elim conjE)
  with len show ?thesis by blast
qed

section \<open>Feasibility of the colorings returned\<close>

text \<open>
  Claim C2 (feasibility invariant). For every graph (vertices in \<open>range(n)\<close>, symmetric
  adjacency, no self-loop) the coloring \<open>greedy_msc\<close> returns is feasible; and for every
  feasible initial coloring and every configuration, \<open>tabu_search_msc\<close> returns, and the
  coloring it returns is feasible.
\<close>

theorem colorings_feasible:
  assumes "valid_graph g"
  shows "feasible g (fst (greedy_msc g)) \<and>
         (feasible g initial_coloring \<longrightarrow>
            (\<exists>coloring v. tabu_search_msc g initial_coloring config = Inr (coloring, v) \<and>
               feasible g coloring))"
  using greedy_feasible[OF assms] tabu_search_feasible[OF assms] by blast

theorem colorings_feasible_witness:
  "valid_graph \<lparr>n = 2, adj = [(0, [1]), (1, [0])]\<rparr> \<and>
   feasible \<lparr>n = 2, adj = [(0, [1]), (1, [0])]\<rparr>
     (fst (greedy_msc \<lparr>n = 2, adj = [(0, [1]), (1, [0])]\<rparr>)) \<and>
   feasible \<lparr>n = 2, adj = [(0, [1]), (1, [0])]\<rparr> [(0, 1), (1, 2)] \<and>
   (\<exists>coloring v. tabu_search_msc \<lparr>n = 2, adj = [(0, [1]), (1, [0])]\<rparr> [(0, 1), (1, 2)] None
        = Inr (coloring, v) \<and> feasible \<lparr>n = 2, adj = [(0, [1]), (1, [0])]\<rparr> coloring)"
proof -
  have vg: "valid_graph \<lparr>n = 2, adj = [(0, [1]), (1, [0])]\<rparr>"
    by (simp add: valid_graph_def edges_def neighbors_def)
  from colorings_feasible[OF vg, of "[(0, 1), (1, 2)]" None] vg path2_feasible
  show ?thesis by blast
qed

section \<open>Boundary: ten vertices and no edge\<close>

text \<open>
  Claim C8 (empty edge set). For a graph with \<open>n = 10\<close> and no edges, \<open>greedy_msc\<close>
  gives every vertex color 1 and returns the objective value 10; and \<open>tabu_search_msc\<close>,
  started from that coloring with the default configuration, returns the same coloring
  with the objective value 10.
\<close>

theorem empty_graph_ten:
  assumes n10: "n g = 10" and ne: "edges g = []"
  shows "greedy_msc g =
           ([(0, 1), (1, 1), (2, 1), (3, 1), (4, 1), (5, 1), (6, 1), (7, 1), (8, 1), (9, 1)], 10) \<and>
         tabu_search_msc g
           [(0, 1), (1, 1), (2, 1), (3, 1), (4, 1), (5, 1), (6, 1), (7, 1), (8, 1), (9, 1)] None =
           Inr ([(0, 1), (1, 1), (2, 1), (3, 1), (4, 1), (5, 1), (6, 1), (7, 1), (8, 1), (9, 1)], 10)"
proof
  let ?ones = "[(0, 1), (1, 1), (2, 1), (3, 1), (4, 1), (5, 1), (6, 1), (7, 1), (8, 1), (9, 1)] :: Coloring"
  have nb: "\<And>v. neighbors g v = []" by (rule no_edges_neighbors[OF ne])
  have r10: "range1 10 = [0, 1, 2, 3, 4, 5, 6, 7, 8, 9]"
    by (simp add: range1_def range2_def upto.simps)
  have "sorted (map (\<lambda>v. (- int (degree g v), v)) (range1 (n g)))"
    by (simp add: degree_def nb n10 range1_def range2_def sorted_map less_eq_prod_def
          sorted_wrt_iff_nth_less)
  then have ord: "greedy_order g = [0, 1, 2, 3, 4, 5, 6, 7, 8, 9]"
    unfolding greedy_order_def by (simp add: sort_key_id_if_sorted n10 r10)
  have cv: "\<And>c v. color_vertex g c v = AList.update v 1 c"
    by (simp add: color_vertex_def forbidden_colors_def nb first_free.simps)
  show "greedy_msc g = (?ones, 10)"
    by (simp add: greedy_msc_def ord cv)
  have "colored g ?ones"
    by (simp add: colored_def nb n10 r10)
  then have "floor_inv g ?ones (initial_state ?ones)"
    by (simp add: floor_inv_def initial_state_def objective_def)
  from tabu_loop_floor[OF this, of default_config] obtain sf where
    "tabu_loop default_config g (initial_state ?ones) = Inr sf" "floor_inv g ?ones sf" by blast
  then show "tabu_search_msc g ?ones None = Inr (?ones, 10)"
    by (simp add: tabu_search_msc_def floor_inv_def)
qed

theorem empty_graph_ten_witness:
  "n \<lparr>n = 10, adj = []\<rparr> = 10 \<and> edges \<lparr>n = 10, adj = []\<rparr> = [] \<and>
   greedy_msc \<lparr>n = 10, adj = []\<rparr> =
     ([(0, 1), (1, 1), (2, 1), (3, 1), (4, 1), (5, 1), (6, 1), (7, 1), (8, 1), (9, 1)], 10) \<and>
   tabu_search_msc \<lparr>n = 10, adj = []\<rparr>
     [(0, 1), (1, 1), (2, 1), (3, 1), (4, 1), (5, 1), (6, 1), (7, 1), (8, 1), (9, 1)] None =
     Inr ([(0, 1), (1, 1), (2, 1), (3, 1), (4, 1), (5, 1), (6, 1), (7, 1), (8, 1), (9, 1)], 10)"
proof -
  have 1: "n \<lparr>n = 10, adj = []\<rparr> = 10" by simp
  have 2: "edges \<lparr>n = 10, adj = []\<rparr> = []" by (simp add: edges_def)
  from empty_graph_ten[OF 1 2] 1 2 show ?thesis by simp
qed

section \<open>Results on graph generation\<close>

text \<open>
  Claim C9 (the check of \<open>p\<close>). For every \<open>n\<close> and seed,
  \<open>generate_erdos_renyi_graph\<close> raises its \<open>ValueError\<close> when \<open>p\<close> is outside
  \<open>[0, 1]\<close> (NaN and the infinities included), and returns a graph when \<open>p\<close> is within.
\<close>

theorem generate_checks_p:
  "(\<not> in_unit_interval p \<longrightarrow>
      generate_erdos_renyi_graph seeded unseeded num p seed = Inl (ValueError ''p must be in [0, 1]'')) \<and>
   (in_unit_interval p \<longrightarrow>
      (\<exists>g. generate_erdos_renyi_graph seeded unseeded num p seed = Inr g))"
  using generate_total[of p seeded unseeded num seed]
  by (auto simp: generate_erdos_renyi_graph_def p_check)

theorem generate_checks_p_witness:
  "\<not> in_unit_interval (Finite 2) \<and>
   generate_erdos_renyi_graph (\<lambda>s k. 0) (\<lambda>k. 0) 3 (Finite 2) (Some 42)
     = Inl (ValueError ''p must be in [0, 1]'') \<and>
   \<not> in_unit_interval NaN \<and>
   generate_erdos_renyi_graph (\<lambda>s k. 0) (\<lambda>k. 0) 3 NaN (Some 42)
     = Inl (ValueError ''p must be in [0, 1]'') \<and>
   in_unit_interval (Finite (1 / 2)) \<and>
   (\<exists>g. generate_erdos_renyi_graph (\<lambda>s k. 0) (\<lambda>k. 0) 3 (Finite (1 / 2)) (Some 42) = Inr g)"
  using generate_checks_p[of "Finite 2" "\<lambda>s k. 0" "\<lambda>k. 0" 3 "Some 42"]
        generate_checks_p[of NaN "\<lambda>s k. 0" "\<lambda>k. 0" 3 "Some 42"]
        generate_checks_p[of "Finite (1 / 2)" "\<lambda>s k. 0" "\<lambda>k. 0" 3 "Some 42"]
  by (simp add: in_unit_interval_def)

text \<open>
  Claim C6 as stated (a negative vertex count fails with an error) does not hold:
  with \<open>n = -1\<close> and \<open>p = 1/2\<close> the generator returns a \<open>Graph\<close>.
\<close>

theorem negative_n_counterexample:
  "generate_erdos_renyi_graph (\<lambda>s k. 0) (\<lambda>k. 0) (- 1) (Finite (1 / 2)) (Some 42)
     = Inr \<lparr>n = - 1, adj = []\<rparr>"
  by (simp add: generate_erdos_renyi_graph_def range1_def range2_def)

text \<open>
  Claim C6, amended. For every negative vertex count the generator does not look at
  \<open>n\<close>: with \<open>p\<close> within \<open>[0, 1]\<close> it returns the graph with that \<open>n\<close> and an empty
  adjacency, and it raises its \<open>ValueError\<close> only when \<open>p\<close> is outside \<open>[0, 1]\<close>.
\<close>

theorem negative_n_returns_empty_graph:
  assumes "num < 0"
  shows "generate_erdos_renyi_graph seeded unseeded num p seed =
           (if in_unit_interval p then Inr \<lparr>n = num, adj = []\<rparr>
            else Inl (ValueError ''p must be in [0, 1]''))"
  using assms by (simp add: generate_erdos_renyi_graph_def p_check range1_def range2_def)

theorem negative_n_returns_empty_graph_witness:
  "(- 5 :: int) < 0 \<and>
   generate_erdos_renyi_graph (\<lambda>s k. 0) (\<lambda>k. 0) (- 5) (Finite 1) None = Inr \<lparr>n = - 5, adj = []\<rparr> \<and>
   generate_erdos_renyi_graph (\<lambda>s k. 0) (\<lambda>k. 0) (- 5) (Finite 3) None
     = Inl (ValueError ''p must be in [0, 1]'')"
  using negative_n_returns_empty_graph[of "- 5" "\<lambda>s k. 0" "\<lambda>k. 0" "Finite 1" None]
        negative_n_returns_empty_graph[of "- 5" "\<lambda>s k. 0" "\<lambda>k. 0" "Finite 3" None]
  by (simp add: in_unit_interval_def)

text \<open>
  Claim C7 (determinism). With a seed given, \<open>generate_erdos_renyi_graph\<close> does not
  depend on the operating system's randomness, so two calls with the same
  \<open>(n, p, seed)\<close> return the same result; \<open>greedy_msc\<close> returns the same coloring and sum
  on two graphs that are equal as Python values (same \<open>n\<close>, same neighbour sets), whatever
  order the sets iterate in; and with a base seed given, \<open>generate_random_graphs\<close>
  generates its \<open>i\<close>-th graph with seed \<open>base_seed + i\<close>, so two calls return the same list.
\<close>

theorem generation_deterministic:
  "generate_erdos_renyi_graph seeded unseeded num p (Some seed) =
     generate_erdos_renyi_graph seeded unseeded' num p (Some seed) \<and>
   (n g = n g' \<and> (\<forall>v. set (neighbors g v) = set (neighbors g' v)) \<longrightarrow> greedy_msc g = greedy_msc g') \<and>
   generate_random_graphs seeded unseeded_batch count num p (Some base_seed) =
     collect (map (\<lambda>i. generate_erdos_renyi_graph seeded unseeded num p (Some (base_seed + i)))
               (range1 count)) \<and>
   generate_random_graphs seeded unseeded_batch count num p (Some base_seed) =
     generate_random_graphs seeded unseeded_batch' count num p (Some base_seed)"
proof (intro conjI impI)
  show "generate_erdos_renyi_graph seeded unseeded num p (Some seed) =
     generate_erdos_renyi_graph seeded unseeded' num p (Some seed)" by (rule generate_seeded)
  show "generate_random_graphs seeded unseeded_batch count num p (Some base_seed) =
     collect (map (\<lambda>i. generate_erdos_renyi_graph seeded unseeded num p (Some (base_seed + i)))
               (range1 count))" by (rule batch_seeded)
  show "generate_random_graphs seeded unseeded_batch count num p (Some base_seed) =
     generate_random_graphs seeded unseeded_batch' count num p (Some base_seed)"
    by (simp add: batch_seeded[where unseeded' = unseeded])
next
  assume "n g = n g' \<and> (\<forall>v. set (neighbors g v) = set (neighbors g' v))"
  then show "greedy_msc g = greedy_msc g'" by (intro greedy_msc_cong) simp_all
qed

theorem generation_deterministic_witness:
  "n \<lparr>n = 3, adj = [(0, [1, 2]), (1, [0]), (2, [0])]\<rparr> = n \<lparr>n = 3, adj = [(0, [2, 1]), (1, [0]), (2, [0])]\<rparr> \<and>
   (\<forall>v. set (neighbors \<lparr>n = 3, adj = [(0, [1, 2]), (1, [0]), (2, [0])]\<rparr> v) =
        set (neighbors \<lparr>n = 3, adj = [(0, [2, 1]), (1, [0]), (2, [0])]\<rparr> v)) \<and>
   greedy_msc \<lparr>n = 3, adj = [(0, [1, 2]), (1, [0]), (2, [0])]\<rparr> =
     greedy_msc \<lparr>n = 3, adj = [(0, [2, 1]), (1, [0]), (2, [0])]\<rparr>"
proof -
  let ?g = "\<lparr>n = 3, adj = [(0, [1, 2]), (1, [0]), (2, [0])]\<rparr>"
  let ?g' = "\<lparr>n = 3, adj = [(0, [2, 1]), (1, [0]), (2, [0])]\<rparr>"
  have 1: "n ?g = n ?g'" by simp
  have 2: "\<forall>v. set (neighbors ?g v) = set (neighbors ?g' v)"
    by (auto simp: neighbors_def)
  from generation_deterministic[of "\<lambda>s k. 0" "\<lambda>k. 0" 0 NaN 0 "\<lambda>k. 0" ?g ?g' "\<lambda>i k. 0" 0 0 "\<lambda>i k. 0"] 1 2
  show ?thesis by blast
qed

end
